theory Spec2Isabelle
  imports Main "HOL-Library.Multiset"
begin

section \<open>Values, tasks and the Runner\<close>

text \<open>
  The values that flow through \<^verbatim>\<open>src/simple-git.ts\<close> are JavaScript values of type
  \<^verbatim>\<open>any\<close>: the raw output of the Runner, what a parser makes of it (a string, an array, an
  object with named fields), the \<^verbatim>\<open>results\<close> array, and \<^verbatim>\<open>undefined\<close>. An error is an
  object, never \<^verbatim>\<open>null\<close>.
\<close>

datatype jsval = Undefined | Str string | Arr "jsval list" | Obj "(string \<times> jsval) list"

datatype error = Error string

text \<open>
  A \<^verbatim>\<open>Task\<close> (interfaces/task): the command and options handed to the Runner, an optional
  parser and an optional handler. A parser may throw; a handler is called as
  \<^verbatim>\<open>handler(err, data)\<close> and may throw as well (\<open>Some e\<close> is the exception thrown,
  \<open>None\<close> a normal return).
\<close>

record task =
  command :: "string list"
  options :: "string list"
  parser :: "(jsval \<Rightarrow> error + jsval) option"
  handler :: "(error option \<Rightarrow> jsval \<Rightarrow> error option) option"

text \<open>
  The Runner is a collaborator: \<^verbatim>\<open>runner.run(command, options)\<close> returns a promise that is
  fulfilled with the raw output or rejected with an error. The outcome of a call is given by
  a function; when the call settles is decided by a schedule (below).
\<close>

type_synonym runner = "string list \<Rightarrow> string list \<Rightarrow> error + jsval"

text \<open>The argument of \<^verbatim>\<open>process\<close>: one Task, or an array of Tasks.\<close>

datatype tasks_arg = Single task | Group "task list"

text \<open>
  Modelled from the spec: \<^verbatim>\<open>varType\<close> and \<^verbatim>\<open>arrType\<close> of util/arguments are not among
  the sources. They tell a single Task from a collection (spec 4.1): \<^verbatim>\<open>varType\<close> gives the
  run-time type tag of a value and \<^verbatim>\<open>arrType\<close> is the tag of arrays, as the use
  \<^verbatim>\<open>varType(items) === arrType ? items[0] : undefined\<close> in \<^verbatim>\<open>firstResult\<close> shows.
\<close>

datatype var_type = arrType | objType | strType | undefType

fun varType :: "jsval \<Rightarrow> var_type" where
  "varType Undefined = undefType"
| "varType (Str _) = strType"
| "varType (Arr _) = arrType"
| "varType (Obj _) = objType"

fun varType_tasks :: "tasks_arg \<Rightarrow> var_type" where
  "varType_tasks (Single _) = objType"
| "varType_tasks (Group _) = arrType"

text \<open>\<^verbatim>\<open>items[0]\<close>: the first element, \<^verbatim>\<open>undefined\<close> for an empty array.\<close>

fun item0 :: "jsval list \<Rightarrow> jsval" where
  "item0 [] = Undefined"
| "item0 (x # _) = x"

text \<open>
  \<^verbatim>\<open>function firstResult(items) { return varType(items) === arrType ? items[0] : undefined; }\<close>
\<close>

definition firstResult :: "jsval \<Rightarrow> jsval" where
  "firstResult items =
     (if varType items = arrType then (case items of Arr xs \<Rightarrow> item0 xs | _ \<Rightarrow> Undefined)
      else Undefined)"

text \<open>
  \<^verbatim>\<open>function isAsyncHandler(task) { return typeof task.handler === 'function'; }\<close>
\<close>

definition isAsyncHandler :: "task \<Rightarrow> bool" where
  "isAsyncHandler t = (case handler t of None \<Rightarrow> False | Some _ \<Rightarrow> True)"

section \<open>The Task Queue Executor: \<^verbatim>\<open>process\<close>\<close>

text \<open>
  What is observed of a run: the calls of the Runner (when each begins and when it settles)
  and the calls of handlers.
\<close>

datatype event =
    RunnerStart task
  | RunnerEnd task
  | HandlerCall task "error option" jsval

datatype settlement = Resolved jsval | Rejected error

text \<open>
  The state of one call of \<^verbatim>\<open>process\<close>: the registry \<^verbatim>\<open>this.queues\<close> (queues by
  identity), the trace, and the closure of the call: the queue \<^verbatim>\<open>q\<close> (its identity, its
  waiting tasks \<^verbatim>\<open>q._tasks\<close> and its running workers), \<^verbatim>\<open>resolveFirst\<close>, \<^verbatim>\<open>results\<close>,
  and the promise returned (\<open>None\<close> while pending).
\<close>

record executor =
  queues :: "nat list"
  trace :: "event list"
  qid :: nat
  resolveFirst :: bool
  q_tasks :: "task list"
  workers :: "task list"
  results :: "jsval list"
  promise :: "settlement option"

text \<open>\<^verbatim>\<open>Array.prototype.indexOf\<close>: the first index of an element, \<open>-1\<close> when absent.\<close>

fun indexOf :: "nat list \<Rightarrow> nat \<Rightarrow> int" where
  "indexOf [] q = -1"
| "indexOf (x # xs) q =
     (if x = q then 0 else (let i = indexOf xs q in if i < 0 then -1 else i + 1))"

text \<open>\<^verbatim>\<open>xs.splice(i, 1)\<close>: removes the element at index \<open>i\<close>.\<close>

definition splice1 :: "nat \<Rightarrow> 'a list \<Rightarrow> 'a list" where
  "splice1 i xs = take i xs @ drop (Suc i) xs"

text \<open>
  \<^verbatim>\<open>onQueueComplete(q) { const indexOf = this.queues.indexOf(q);
     if (indexOf >= 0) { this.queues.splice(indexOf, 1); } }\<close>
\<close>

definition onQueueComplete :: "nat \<Rightarrow> nat list \<Rightarrow> nat list" where
  "onQueueComplete q qs =
     (let i = indexOf qs q in if i \<ge> 0 then splice1 (nat i) qs else qs)"

text \<open>
  \<^verbatim>\<open>ok\<close> and \<^verbatim>\<open>fail\<close> of the promise: the first call settles it, later calls do nothing.
\<close>

definition ok :: "jsval \<Rightarrow> executor \<Rightarrow> executor" where
  "ok v s = (case promise s of None \<Rightarrow> s\<lparr>promise := Some (Resolved v)\<rparr> | Some _ \<Rightarrow> s)"

definition fail :: "error \<Rightarrow> executor \<Rightarrow> executor" where
  "fail e s = (case promise s of None \<Rightarrow> s\<lparr>promise := Some (Rejected e)\<rparr> | Some _ \<Rightarrow> s)"

text \<open>
  \<^verbatim>\<open>q.drain = () => { this.onQueueComplete(q); ok(resolveFirst ? firstResult(results) : results); }\<close>
\<close>

definition q_drain :: "executor \<Rightarrow> executor" where
  "q_drain s =
     ok (if resolveFirst s then firstResult (Arr (results s)) else Arr (results s))
        (s\<lparr>queues := onQueueComplete (qid s) (queues s)\<rparr>)"

text \<open>
  \<^verbatim>\<open>q.error = (err, task) => { this.onQueueComplete(q); fail(err); }\<close>
\<close>

definition q_error :: "error \<Rightarrow> executor \<Rightarrow> executor" where
  "q_error e s = fail e (s\<lparr>queues := onQueueComplete (qid s) (queues s)\<rparr>)"

text \<open>
  The \<^verbatim>\<open>try\<close> block of the worker, once the Runner call has settled:
  \<^verbatim>\<open>const data = await this.runner.run(task.command, task.options);
    results.push(task.parser ? task.parser(data) : data);\<close>
  \<open>Inr\<close> is the value pushed, \<open>Inl\<close> the exception caught (from the Runner or the parser).
\<close>

definition worker_result :: "runner \<Rightarrow> task \<Rightarrow> error + jsval" where
  "worker_result run t =
     (case run (command t) (options t) of
        Inl e \<Rightarrow> Inl e
      | Inr data \<Rightarrow> (case parser t of None \<Rightarrow> Inr data | Some p \<Rightarrow> p data))"

text \<open>
  The queue of the \<^verbatim>\<open>async\<close> library starts workers while fewer than \<open>concurrency\<close> are
  running and tasks wait. A worker calls the Runner at once and then awaits it.
\<close>

function q_process :: "nat \<Rightarrow> executor \<Rightarrow> executor" where
  "q_process n s =
     (case q_tasks s of
        [] \<Rightarrow> s
      | t # ts \<Rightarrow>
          if length (workers s) < n
          then q_process n (s\<lparr>q_tasks := ts, workers := workers s @ [t],
                               trace := trace s @ [RunnerStart t]\<rparr>)
          else s)"
  by pat_completeness auto
termination
  by (relation "measure (\<lambda>(n, s). length (q_tasks s))") auto

text \<open>
  The Runner call of the \<open>k\<close>-th running worker (counted modulo the number of running
  workers) settles. The worker resumes after its \<^verbatim>\<open>await\<close>: it pushes the value, or
  \<^verbatim>\<open>undefined\<close> in the \<^verbatim>\<open>catch\<close> block, and calls \<^verbatim>\<open>callback(err)\<close>. The queue then
  calls \<^verbatim>\<open>q.error\<close> when \<^verbatim>\<open>err\<close> is set, \<^verbatim>\<open>q.drain\<close> when nothing waits or runs, and
  starts the next workers.
\<close>

definition complete :: "runner \<Rightarrow> nat \<Rightarrow> nat \<Rightarrow> executor \<Rightarrow> executor" where
  "complete run n k s =
     (if workers s = [] then s
      else
        let i = k mod length (workers s);
            t = workers s ! i;
            s1 = s\<lparr>workers := splice1 i (workers s), trace := trace s @ [RunnerEnd t]\<rparr>;
            s2 = (case worker_result run t of
                    Inr v \<Rightarrow> s1\<lparr>results := results s1 @ [v]\<rparr>
                  | Inl e \<Rightarrow> q_error e (s1\<lparr>results := results s1 @ [Undefined]\<rparr>));
            s3 = (if q_tasks s2 = [] \<and> workers s2 = [] then q_drain s2 else s2)
        in q_process n s3)"

text \<open>A fresh queue object is none of the objects in the registry.\<close>

definition new_queue :: "nat list \<Rightarrow> nat" where
  "new_queue qs = Suc (fold max qs 0)"

definition concurrency_error :: error where
  "concurrency_error = Error ''Concurrency must not be zero''"

text \<open>
  \<^verbatim>\<open>process(tasks)\<close>, up to the first Runner calls. \<^verbatim>\<open>queue(worker, 0)\<close> throws, which
  rejects the promise under construction. \<^verbatim>\<open>q.push(tasks)\<close> takes one task or an array;
  pushing an empty array calls \<^verbatim>\<open>q.drain\<close> and starts nothing.
\<close>

definition process :: "nat \<Rightarrow> tasks_arg \<Rightarrow> nat list \<Rightarrow> event list \<Rightarrow> executor" where
  "process n tasks qs tr =
     (let rf = (varType_tasks tasks = arrType);
          q = new_queue qs;
          s0 = \<lparr>queues = qs, trace = tr, qid = q, resolveFirst = rf, q_tasks = [],
                workers = [], results = [], promise = None\<rparr>
      in if n = 0 then fail concurrency_error s0
         else
           let s1 = s0\<lparr>queues := qs @ [q]\<rparr>;
               data = (case tasks of Single t \<Rightarrow> [t] | Group ts \<Rightarrow> ts)
           in if data = [] then q_drain s1 else q_process n (s1\<lparr>q_tasks := data\<rparr>))"

text \<open>
  A schedule lists, for each settling Runner call in turn, which running worker it belongs
  to. Every order of completion is a schedule, and every schedule is an order of completion.
\<close>

fun run_schedule :: "runner \<Rightarrow> nat \<Rightarrow> nat list \<Rightarrow> executor \<Rightarrow> executor" where
  "run_schedule run n [] s = s"
| "run_schedule run n (k # ks) s = run_schedule run n ks (complete run n k s)"

text \<open>The tasks whose Runner calls have settled, in the order in which they settled.\<close>

fun completed :: "event list \<Rightarrow> task list" where
  "completed [] = []"
| "completed (RunnerEnd t # es) = t # completed es"
| "completed (_ # es) = completed es"

fun started :: "event list \<Rightarrow> task list" where
  "started [] = []"
| "started (RunnerStart t # es) = t # started es"
| "started (_ # es) = started es"

definition tasks_of :: "tasks_arg \<Rightarrow> task list" where
  "tasks_of tasks = (case tasks of Single t \<Rightarrow> [t] | Group ts \<Rightarrow> ts)"

section \<open>The Chain Sequencer: \<^verbatim>\<open>processChain\<close>\<close>

text \<open>
  The instance keeps \<^verbatim>\<open>this.pending\<close> and \<^verbatim>\<open>this.chain\<close>. The chain is a promise that
  starts resolved; every \<^verbatim>\<open>processChain(task)\<close> replaces it by
  \<^verbatim>\<open>this.chain.then(() => ...)\<close>. Such continuations run one after the other, each once
  the promise before it is fulfilled; when that promise is rejected the continuation is not
  called and the rejection is passed on. The state below keeps the continuations not yet
  reached (each by the \<^verbatim>\<open>task\<close> of its closure), the rejection of the last settled promise
  of the chain (\<open>None\<close> when fulfilled), and the closure task of the continuation whose
  promise is pending. \<open>exec\<close> holds \<^verbatim>\<open>this.queues\<close>, the trace, and the Running Queue of
  the last call of \<^verbatim>\<open>process\<close> made by the chain.
\<close>

record simple_git =
  exec :: executor
  pending :: "task list"
  chain_thens :: "task list"
  chain_rejected :: "error option"
  active :: "task option"

definition idle_executor :: executor where
  "idle_executor = \<lparr>queues = [], trace = [], qid = 0, resolveFirst = False, q_tasks = [],
     workers = [], results = [], promise = None\<rparr>"

definition new_simple_git :: simple_git where
  "new_simple_git = \<lparr>exec = idle_executor, pending = [], chain_thens = [],
     chain_rejected = None, active = None\<rparr>"

definition type_error :: error where
  "type_error = Error ''TypeError''"

text \<open>
  \<^verbatim>\<open>task.handler(err, data)\<close>: the call and the exception it throws, if any. Calling a
  handler that is not there throws a \<^verbatim>\<open>TypeError\<close>.
\<close>

definition call_handler :: "task \<Rightarrow> error option \<Rightarrow> jsval \<Rightarrow> event list \<times> error option" where
  "call_handler task err data =
     (case handler task of
        None \<Rightarrow> ([], Some type_error)
      | Some h \<Rightarrow> ([HandlerCall task err data], h err data))"

text \<open>
  \<^verbatim>\<open>data[0]\<close> on a value: the first element of an array, the first character of a string,
  the field named \<^verbatim>\<open>0\<close> of an object; it throws on \<^verbatim>\<open>undefined\<close>.
\<close>

fun js_index0 :: "jsval \<Rightarrow> error + jsval" where
  "js_index0 Undefined = Inl type_error"
| "js_index0 (Str s) = Inr (case s of [] \<Rightarrow> Undefined | c # _ \<Rightarrow> Str [c])"
| "js_index0 (Arr xs) = Inr (item0 xs)"
| "js_index0 (Obj kvs) = Inr (case map_of kvs ''0'' of None \<Rightarrow> Undefined | Some v \<Rightarrow> v)"

text \<open>\<^verbatim>\<open>.then(data => task.handler(null, data[0]))\<close>\<close>

definition on_then :: "task \<Rightarrow> jsval \<Rightarrow> event list \<times> error option" where
  "on_then task data =
     (case js_index0 data of
        Inl x \<Rightarrow> ([], Some x)
      | Inr v \<Rightarrow> call_handler task None v)"

text \<open>\<^verbatim>\<open>.catch(err => task.handler(err))\<close>\<close>

definition on_catch :: "task \<Rightarrow> error \<Rightarrow> event list \<times> error option" where
  "on_catch task err = call_handler task (Some err) Undefined"

text \<open>
  \<^verbatim>\<open>this.process(next).then(...).catch(...)\<close> once the promise of \<^verbatim>\<open>process\<close> has settled:
  the handler calls made, and the rejection of the resulting promise (\<open>None\<close> when it is
  fulfilled). An exception thrown in the \<^verbatim>\<open>then\<close> callback is caught by the \<^verbatim>\<open>catch\<close>
  callback; an exception thrown there rejects the promise.
\<close>

definition then_catch :: "task \<Rightarrow> settlement \<Rightarrow> event list \<times> error option" where
  "then_catch task st =
     (case st of
        Rejected err \<Rightarrow> on_catch task err
      | Resolved data \<Rightarrow>
          (case on_then task data of
             (evs, None) \<Rightarrow> (evs, None)
           | (evs, Some x) \<Rightarrow> (case on_catch task x of (evs', r) \<Rightarrow> (evs @ evs', r))))"

text \<open>
  The promise returned by a continuation follows that of \<^verbatim>\<open>process\<close>: pending while it is
  pending, and settled by \<open>then_catch\<close> once it has settled.
\<close>

definition step_settled :: "task \<Rightarrow> simple_git \<Rightarrow> simple_git" where
  "step_settled task s =
     (case promise (exec s) of
        None \<Rightarrow> s\<lparr>active := Some task\<rparr>
      | Some st \<Rightarrow>
          (case then_catch task st of
             (evs, r) \<Rightarrow> s\<lparr>exec := (exec s)\<lparr>trace := trace (exec s) @ evs\<rparr>,
                            chain_rejected := r, active := None\<rparr>))"

text \<open>
  The continuation registered by \<^verbatim>\<open>processChain(task)\<close>:
  \<^verbatim>\<open>const next = this.pending.shift();
    if (!next) { return Promise.resolve(); }
    return this.process(next).then(data => task.handler(null, data[0]))
                             .catch(err => task.handler(err));\<close>
\<close>

definition continuation :: "nat \<Rightarrow> task \<Rightarrow> simple_git \<Rightarrow> simple_git" where
  "continuation n task s =
     (case pending s of
        [] \<Rightarrow> s
      | next # rest \<Rightarrow>
          step_settled task
            (s\<lparr>pending := rest,
               exec := process n (Single next) (queues (exec s)) (trace (exec s))\<rparr>))"

text \<open>
  \<^verbatim>\<open>processChain(task) { this.pending.push(task);
     this.chain = this.chain.then(() => ...); return this; }\<close>
\<close>

definition processChain :: "task \<Rightarrow> simple_git \<Rightarrow> simple_git" where
  "processChain task s =
     s\<lparr>pending := pending s @ [task], chain_thens := chain_thens s @ [task]\<rparr>"

text \<open>
  A turn of the promise jobs: when no continuation is pending, the next one is reached. It is
  called when the chain is fulfilled and skipped when the chain is rejected.
\<close>

definition tick :: "nat \<Rightarrow> simple_git \<Rightarrow> simple_git" where
  "tick n s =
     (case active s of
        Some _ \<Rightarrow> s
      | None \<Rightarrow>
          (case chain_thens s of
             [] \<Rightarrow> s
           | task # rest \<Rightarrow>
               (case chain_rejected s of
                  Some e \<Rightarrow> s\<lparr>chain_thens := rest\<rparr>
                | None \<Rightarrow> continuation n task (s\<lparr>chain_thens := rest\<rparr>))))"

text \<open>The Runner call of the step in progress settles.\<close>

definition runner_done :: "runner \<Rightarrow> nat \<Rightarrow> simple_git \<Rightarrow> simple_git" where
  "runner_done run n s =
     (case active s of
        None \<Rightarrow> s
      | Some task \<Rightarrow> step_settled task (s\<lparr>exec := complete run n 0 (exec s)\<rparr>))"

text \<open>
  What happens to an instance, in any order: a chained call is made, a promise job runs, a
  Runner call settles.
\<close>

datatype action = Append task | Tick | RunnerDone

fun act :: "runner \<Rightarrow> nat \<Rightarrow> action \<Rightarrow> simple_git \<Rightarrow> simple_git" where
  "act run n (Append task) s = processChain task s"
| "act run n Tick s = tick n s"
| "act run n RunnerDone s = runner_done run n s"

fun run_actions :: "runner \<Rightarrow> nat \<Rightarrow> action list \<Rightarrow> simple_git \<Rightarrow> simple_git" where
  "run_actions run n [] s = s"
| "run_actions run n (a # as) s = run_actions run n as (act run n a s)"

text \<open>The tasks handed to \<^verbatim>\<open>processChain\<close>, in order.\<close>

fun appended :: "action list \<Rightarrow> task list" where
  "appended [] = []"
| "appended (Append t # as) = t # appended as"
| "appended (_ # as) = appended as"

section \<open>The Dispatcher: the public operations\<close>

text \<open>An argument of a public operation.\<close>

datatype js_arg =
    AString string
  | AArray "string list"
  | AObject "string list"
  | AFunction "error option \<Rightarrow> jsval \<Rightarrow> error option"

text \<open>
  The helpers of util/arguments and the task builders of commands/ are not among the
  sources; the operations take them as parameters. \<^verbatim>\<open>trailingArrayArgument\<close> returns an
  array (the operations spread it), \<^verbatim>\<open>trailingFunctionArgument\<close> a function or
  \<^verbatim>\<open>undefined\<close>.
\<close>

record collaborators =
  trailingArrayArgument :: "js_arg list \<Rightarrow> string list"
  trailingOptionsArgument :: "js_arg list \<Rightarrow> string list"
  trailingFunctionArgument :: "js_arg list \<Rightarrow> (error option \<Rightarrow> jsval \<Rightarrow> error option) option"
  clone_task :: "string list \<Rightarrow> string list \<Rightarrow> (error option \<Rightarrow> jsval \<Rightarrow> error option) option \<Rightarrow> task"
  status_task :: "(error option \<Rightarrow> jsval \<Rightarrow> error option) option \<Rightarrow> task"
  stashList_task :: "string list \<Rightarrow> string list \<Rightarrow> (error option \<Rightarrow> jsval \<Rightarrow> error option) option \<Rightarrow> task"
  stash_task :: "string list \<Rightarrow> string list \<Rightarrow> (error option \<Rightarrow> jsval \<Rightarrow> error option) option \<Rightarrow> task"

text \<open>
  What a public operation returns: the instance itself (here with the state the call left
  it in), or the promise of \<^verbatim>\<open>process\<close> (here the state of that call).
\<close>

datatype simple_git_return = This simple_git | Future executor

text \<open>
  The loop of \<^verbatim>\<open>clone\<close>:
  \<^verbatim>\<open>for (let i = 0, max = args.length; i < max; i++) {
      if (typeof args[i] !== 'string') { break; }
      commands.push(args[i]); }\<close>
\<close>

fun leading_strings :: "js_arg list \<Rightarrow> string list" where
  "leading_strings [] = []"
| "leading_strings (AString s # args) = s # leading_strings args"
| "leading_strings (_ # args) = []"

definition clone :: "collaborators \<Rightarrow> nat \<Rightarrow> js_arg list \<Rightarrow> simple_git \<Rightarrow> simple_git_return" where
  "clone c n args s =
     (let commands = trailingArrayArgument c args @ leading_strings args;
          task = clone_task c commands (trailingOptionsArgument c args)
                   (trailingFunctionArgument c args)
      in if \<not> isAsyncHandler task
         then Future (process n (Single task) (queues (exec s)) (trace (exec s)))
         else This (processChain task s))"

text \<open>
  \<^verbatim>\<open>mirror(repoPath, localPath, ...args) {
     return this.clone(repoPath, localPath, ['--mirror'], ...args); }\<close>
\<close>

definition mirror ::
  "collaborators \<Rightarrow> nat \<Rightarrow> string \<Rightarrow> string \<Rightarrow> js_arg list \<Rightarrow> simple_git \<Rightarrow> simple_git_return" where
  "mirror c n repoPath localPath args s =
     clone c n (AString repoPath # AString localPath # AArray [''--mirror''] # args) s"

definition status :: "collaborators \<Rightarrow> nat \<Rightarrow> js_arg list \<Rightarrow> simple_git \<Rightarrow> simple_git_return" where
  "status c n args s =
     (let task = status_task c (trailingFunctionArgument c args)
      in if \<not> isAsyncHandler task
         then Future (process n (Single task) (queues (exec s)) (trace (exec s)))
         else This (processChain task s))"

definition stashList :: "collaborators \<Rightarrow> nat \<Rightarrow> js_arg list \<Rightarrow> simple_git \<Rightarrow> simple_git_return" where
  "stashList c n args s =
     (let task = stashList_task c (trailingArrayArgument c args) (trailingOptionsArgument c args)
                   (trailingFunctionArgument c args)
      in if \<not> isAsyncHandler task
         then Future (process n (Single task) (queues (exec s)) (trace (exec s)))
         else This (processChain task s))"

definition stash :: "collaborators \<Rightarrow> nat \<Rightarrow> js_arg list \<Rightarrow> simple_git \<Rightarrow> simple_git_return" where
  "stash c n args s =
     (let task = stash_task c (trailingArrayArgument c args) (trailingOptionsArgument c args)
                   (trailingFunctionArgument c args)
      in if \<not> isAsyncHandler task
         then Future (process n (Single task) (queues (exec s)) (trace (exec s)))
         else This (processChain task s))"

section \<open>Notions used to state the properties of the executor\<close>

text \<open>What the worker pushes onto \<^verbatim>\<open>results\<close> for a task: the value, or \<^verbatim>\<open>undefined\<close>.\<close>

definition pushed :: "runner \<Rightarrow> task \<Rightarrow> jsval" where
  "pushed run t = (case worker_result run t of Inr v \<Rightarrow> v | Inl e \<Rightarrow> Undefined)"

text \<open>The error of the first task, in a list of tasks, whose worker caught an exception.\<close>

fun first_failure :: "runner \<Rightarrow> task list \<Rightarrow> error option" where
  "first_failure run [] = None"
| "first_failure run (t # ts) =
     (case worker_result run t of Inl e \<Rightarrow> Some e | Inr _ \<Rightarrow> first_failure run ts)"

text \<open>The value \<^verbatim>\<open>q.drain\<close> hands to \<^verbatim>\<open>ok\<close>.\<close>

definition delivered :: "executor \<Rightarrow> jsval" where
  "delivered s = (if resolveFirst s then firstResult (Arr (results s)) else Arr (results s))"

text \<open>
  The invariant of a run of one submission of tasks \<open>ts\<close> against a registry that held
  \<open>qs\<close>: no task waits while no worker runs; at most \<open>n\<close> workers run; tasks are started
  in the order of submission; every started task runs or has completed; \<^verbatim>\<open>results\<close> holds
  one entry for each completed task, in the order of completion; the promise is rejected with
  the first failure, resolved when nothing is left, and pending otherwise; the queue is in
  the registry exactly while the promise is pending.
\<close>

definition exec_inv :: "runner \<Rightarrow> nat \<Rightarrow> task list \<Rightarrow> nat list \<Rightarrow> executor \<Rightarrow> bool" where
  "exec_inv run n ts qs s \<longleftrightarrow>
     (workers s = [] \<longrightarrow> q_tasks s = []) \<and>
     length (workers s) \<le> n \<and>
     started (trace s) @ q_tasks s = ts \<and>
     mset (completed (trace s)) + mset (workers s) = mset (started (trace s)) \<and>
     results s = map (pushed run) (completed (trace s)) \<and>
     promise s =
       (case first_failure run (completed (trace s)) of
          Some e \<Rightarrow> Some (Rejected e)
        | None \<Rightarrow> if workers s = [] then Some (Resolved (delivered s)) else None) \<and>
     qid s = new_queue qs \<and>
     queues s = (if promise s = None then qs @ [new_queue qs] else qs)"

section \<open>Notions used to state the properties of the chain\<close>

text \<open>
  What \<^verbatim>\<open>process\<close> settles with for a single Task, from the outcome of its worker: the
  array of the one result, or the error.
\<close>

definition step_outcome :: "runner \<Rightarrow> task \<Rightarrow> settlement" where
  "step_outcome run t =
     (case worker_result run t of Inr v \<Rightarrow> Resolved (Arr [v]) | Inl e \<Rightarrow> Rejected e)"

text \<open>
  The events of one step of the chain run from start to end, and the rejection it leaves the
  chain with (\<open>None\<close> when the chain stays fulfilled).
\<close>

definition step_events :: "runner \<Rightarrow> task \<Rightarrow> event list" where
  "step_events run t = [RunnerStart t, RunnerEnd t] @ fst (then_catch t (step_outcome run t))"

definition step_rejects :: "runner \<Rightarrow> task \<Rightarrow> error option" where
  "step_rejects run t = snd (then_catch t (step_outcome run t))"

text \<open>
  The events of a list of steps run one after the other, each from start to end, up to and
  including the first step that rejects the chain; and the state of the chain after them.
\<close>

fun chain_events :: "runner \<Rightarrow> task list \<Rightarrow> event list" where
  "chain_events run [] = []"
| "chain_events run (t # ts) =
     step_events run t @ (case step_rejects run t of None \<Rightarrow> chain_events run ts | Some _ \<Rightarrow> [])"

fun chain_state :: "runner \<Rightarrow> task list \<Rightarrow> error option" where
  "chain_state run [] = None"
| "chain_state run (t # ts) =
     (case step_rejects run t of None \<Rightarrow> chain_state run ts | Some e \<Rightarrow> Some e)"

text \<open>
  A trace in which no Runner call begins while another is in flight (\<open>busy\<close>), and no
  handler is called while a Runner call is in flight.
\<close>

fun runner_calls_disjoint :: "bool \<Rightarrow> event list \<Rightarrow> bool" where
  "runner_calls_disjoint busy [] = True"
| "runner_calls_disjoint busy (RunnerStart t # es) = (\<not> busy \<and> runner_calls_disjoint True es)"
| "runner_calls_disjoint busy (RunnerEnd t # es) = (busy \<and> runner_calls_disjoint False es)"
| "runner_calls_disjoint busy (HandlerCall t e v # es) = (\<not> busy \<and> runner_calls_disjoint False es)"

text \<open>The step whose Runner call is in flight, as a list.\<close>

definition in_progress :: "simple_git \<Rightarrow> task list" where
  "in_progress s = (case active s of None \<Rightarrow> [] | Some t \<Rightarrow> [t])"

text \<open>
  The invariant of the chain after the tasks \<open>ts\<close> have been handed to \<^verbatim>\<open>processChain\<close>:
  \<open>done\<close> are the steps settled or skipped, then comes the step in progress, then the
  continuations not yet reached.
\<close>

definition chain_at :: "runner \<Rightarrow> task list \<Rightarrow> task list \<Rightarrow> simple_git \<Rightarrow> bool" where
  "chain_at run ts done s \<longleftrightarrow>
        ts = done @ in_progress s @ chain_thens s \<and>
        trace (exec s) = chain_events run done @ map RunnerStart (in_progress s) \<and>
        chain_state run done = chain_rejected s \<and>
        (chain_rejected s = None \<longrightarrow> pending s = chain_thens s) \<and>
        (in_progress s \<noteq> [] \<longrightarrow>
           chain_rejected s = None \<and> workers (exec s) = in_progress s \<and> q_tasks (exec s) = [] \<and>
           promise (exec s) = None \<and> results (exec s) = [] \<and> \<not> resolveFirst (exec s))"

definition chain_inv :: "runner \<Rightarrow> task list \<Rightarrow> simple_git \<Rightarrow> bool" where
  "chain_inv run ts s \<longleftrightarrow> (\<exists>done. chain_at run ts done s)"

text \<open>\<open>m\<close> rounds of a promise job followed by the settling of the Runner call in flight.\<close>

definition turns :: "nat \<Rightarrow> action list" where
  "turns m = concat (replicate m [Tick, RunnerDone])"

text \<open>
  The handler of a task is there and returns normally when called with the outcome of the
  task's own step.
\<close>

definition handler_returns :: "runner \<Rightarrow> task \<Rightarrow> bool" where
  "handler_returns run t =
     (case handler t of
        None \<Rightarrow> False
      | Some h \<Rightarrow>
          (case worker_result run t of
             Inl e \<Rightarrow> h (Some e) Undefined = None
           | Inr v \<Rightarrow> h None v = None))"

text \<open>
  The events of a step whose handler is called once, with the outcome of that step:
  \<^verbatim>\<open>handler(null, result)\<close> on success, \<^verbatim>\<open>handler(err)\<close> on failure.
\<close>

definition own_outcome_events :: "runner \<Rightarrow> task \<Rightarrow> event list" where
  "own_outcome_events run t =
     [RunnerStart t, RunnerEnd t,
      (case worker_result run t of
         Inl e \<Rightarrow> HandlerCall t (Some e) Undefined
       | Inr v \<Rightarrow> HandlerCall t None v)]"

text \<open>
  The routing as the specification words it (4.3): a Task that carries a handler goes to the
  Chain Sequencer and the instance is returned; any other Task goes to the Task Queue
  Executor and its promise is returned.
\<close>

definition spec_route :: "nat \<Rightarrow> task \<Rightarrow> simple_git \<Rightarrow> simple_git_return" where
  "spec_route n task s =
     (case handler task of
        Some h \<Rightarrow> This (processChain task s)
      | None \<Rightarrow> Future (process n (Single task) (queues (exec s)) (trace (exec s))))"

section \<open>Example inputs\<close>

definition taskA :: task where
  "taskA = \<lparr>command = [''a''], options = [], parser = None, handler = None\<rparr>"

definition taskB :: task where
  "taskB = \<lparr>command = [''b''], options = [], parser = None, handler = None\<rparr>"

definition taskC :: task where
  "taskC = \<lparr>command = [''c''], options = [], parser = None, handler = None\<rparr>"

text \<open>A task with a parser, which wraps the raw output in an object.\<close>

definition taskP :: task where
  "taskP = \<lparr>command = [''p''], options = [],
     parser = Some (\<lambda>data. Inr (Obj [(''raw'', data)])), handler = None\<rparr>"

text \<open>A Runner that echoes the command, and one that fails on the command of B.\<close>

definition ok_runner :: runner where
  "ok_runner c os = Inr (Str (concat c))"

definition b_fails :: runner where
  "b_fails c os = (if c = [''b''] then Inl (Error ''boom'') else Inr (Str (concat c)))"

text \<open>
  Chained Tasks: one whose handler returns, one whose handler throws the error it is given,
  one whose handler throws on a result and returns on an error, one whose handler always
  throws.
\<close>

definition chained :: "string \<Rightarrow> task" where
  "chained c = \<lparr>command = [c], options = [], parser = None, handler = Some (\<lambda>err data. None)\<rparr>"

definition rethrows :: "string \<Rightarrow> task" where
  "rethrows c = \<lparr>command = [c], options = [], parser = None, handler = Some (\<lambda>err data. err)\<rparr>"

definition throws_once :: "string \<Rightarrow> task" where
  "throws_once c = \<lparr>command = [c], options = [], parser = None,
     handler = Some (\<lambda>err data. case err of None \<Rightarrow> Some (Error ''bug'') | Some _ \<Rightarrow> None)\<rparr>"

definition always_throws :: "string \<Rightarrow> task" where
  "always_throws c = \<lparr>command = [c], options = [], parser = None,
     handler = Some (\<lambda>err data. Some (Error ''bug''))\<rparr>"

text \<open>An instance of the collaborators the public operations are given.\<close>

definition demo :: collaborators where
  "demo = \<lparr>
     trailingArrayArgument = (\<lambda>args. concat (map (\<lambda>a. case a of AArray xs \<Rightarrow> xs | _ \<Rightarrow> []) args)),
     trailingOptionsArgument = (\<lambda>args. []),
     trailingFunctionArgument = (\<lambda>args. case rev args of AFunction f # _ \<Rightarrow> Some f | _ \<Rightarrow> None),
     clone_task = (\<lambda>cmds opts h. \<lparr>command = ''clone'' # cmds, options = opts, parser = None, handler = h\<rparr>),
     status_task = (\<lambda>h. \<lparr>command = [''status''], options = [], parser = None, handler = h\<rparr>),
     stashList_task = (\<lambda>cmds opts h. \<lparr>command = ''stash'' # ''list'' # cmds, options = opts, parser = None, handler = h\<rparr>),
     stash_task = (\<lambda>cmds opts h. \<lparr>command = ''stash'' # cmds, options = opts, parser = None, handler = h\<rparr>)\<rparr>"

section \<open>Facts about the executor\<close>

declare q_process.simps [simp del]

lemma indexOf_remove1: "onQueueComplete q qs = remove1 q qs"
proof -
  have neg: "indexOf xs q < 0 \<longleftrightarrow> q \<notin> set xs" for xs
    by (induction xs) (auto simp: Let_def)
  have ge: "indexOf xs q \<ge> -1" for xs
    by (induction xs) (auto simp: Let_def)
  have "(let i = indexOf xs q in if i \<ge> 0 then splice1 (nat i) xs else xs) = remove1 q xs" for xs
  proof (induction xs)
    case Nil
    then show ?case by (simp add: splice1_def)
  next
    case (Cons x xs)
    show ?case
    proof (cases "x = q")
      case True
      then show ?thesis by (simp add: splice1_def)
    next
      case False
      show ?thesis
      proof (cases "q \<in> set xs")
        case True
        then have nn: "\<not> indexOf xs q < 0" using neg by blast
        then have "nat (indexOf xs q + 1) = Suc (nat (indexOf xs q))" by simp
        with Cons False nn show ?thesis
          by (simp add: Let_def splice1_def)
      next
        case False
        with \<open>x \<noteq> q\<close> neg [of xs] show ?thesis
          by (simp add: Let_def remove1_idem)
      qed
    qed
  qed
  then show ?thesis by (simp add: onQueueComplete_def)
qed

lemma completed_append: "completed (es @ es') = completed es @ completed es'"
  by (induction es rule: completed.induct) auto

lemma started_append: "started (es @ es') = started es @ started es'"
  by (induction es rule: started.induct) auto

lemma first_failure_append:
  "first_failure run (xs @ ys) =
     (case first_failure run xs of Some e \<Rightarrow> Some e | None \<Rightarrow> first_failure run ys)"
  by (induction xs) (auto split: sum.splits)

lemma q_process_frame:
  "queues (q_process n s) = queues s \<and> results (q_process n s) = results s \<and>
   promise (q_process n s) = promise s \<and> qid (q_process n s) = qid s \<and>
   resolveFirst (q_process n s) = resolveFirst s"
  by (induction n s rule: q_process.induct)
     (subst (1 2 3 4 5) q_process.simps, simp split: list.splits)

lemma q_process_order:
  "workers (q_process n s) @ q_tasks (q_process n s) = workers s @ q_tasks s"
  by (induction n s rule: q_process.induct)
     (subst (1 2) q_process.simps, simp split: list.splits)

lemma q_process_completed:
  "completed (trace (q_process n s)) = completed (trace s)"
  by (induction n s rule: q_process.induct)
     (subst q_process.simps, simp split: list.splits add: completed_append)

lemma q_process_started:
  "started (trace (q_process n s)) @ q_tasks (q_process n s) = started (trace s) @ q_tasks s"
  by (induction n s rule: q_process.induct)
     (subst (1 2) q_process.simps, simp split: list.splits add: started_append)

lemma q_process_busy:
  "0 < n \<Longrightarrow> workers (q_process n s) = [] \<Longrightarrow> q_tasks (q_process n s) = []"
  by (induction n s rule: q_process.induct)
     (subst (asm) q_process.simps, subst q_process.simps, simp split: list.splits if_splits)

lemma q_process_bound:
  "length (workers s) \<le> n \<Longrightarrow> length (workers (q_process n s)) \<le> n"
  by (induction n s rule: q_process.induct)
     (subst q_process.simps, simp split: list.splits)


lemma new_queue_fresh: "new_queue qs \<notin> set qs"
proof -
  have "x \<in> set xs \<Longrightarrow> x \<le> fold max xs a" for x :: nat and xs a
  proof (induction xs arbitrary: a)
    case Nil
    then show ?case by simp
  next
    case (Cons y ys)
    have mono: "a \<le> fold max ys a" for a :: nat
      by (induction ys arbitrary: a) (auto intro: order_trans [OF max.cobounded2])
    from Cons show ?case
      using mono [of "max y a"] by auto
  qed
  from this [of "new_queue qs" qs 0] show ?thesis
    by (auto simp: new_queue_def)
qed

lemma onQueueComplete_registered: "onQueueComplete (new_queue qs) (qs @ [new_queue qs]) = qs"
  using new_queue_fresh [of qs] by (simp add: indexOf_remove1 remove1_append)

lemma onQueueComplete_absent: "onQueueComplete (new_queue qs) qs = qs"
  using new_queue_fresh [of qs] by (simp add: indexOf_remove1 remove1_idem)

lemma onQueueComplete_others:
  "q \<notin> set xs \<Longrightarrow> onQueueComplete q (xs @ q # ys) = xs @ ys"
  by (simp add: indexOf_remove1 remove1_append)

lemma pushed_success:
  "run (command t) (options t) = Inr data \<Longrightarrow> parser t = None \<Longrightarrow> pushed run t = data"
  "run (command t) (options t) = Inr data \<Longrightarrow> parser t = Some p \<Longrightarrow> p data = Inr v \<Longrightarrow>
   pushed run t = v"
  by (simp_all add: pushed_def worker_result_def)

lemma exec_inv_process:
  assumes "0 < n"
  shows "exec_inv run n (tasks_of tasks) qs (process n tasks qs [])"
proof (cases "tasks_of tasks = []")
  case True
  with assms show ?thesis
    by (simp add: exec_inv_def process_def tasks_of_def q_drain_def ok_def delivered_def
        onQueueComplete_registered Let_def)
next
  case False
  define s1 where "s1 = \<lparr>queues = qs @ [new_queue qs], trace = [], qid = new_queue qs,
     resolveFirst = (varType_tasks tasks = arrType), q_tasks = tasks_of tasks,
     workers = [], results = [], promise = None\<rparr>"
  have p: "process n tasks qs [] = q_process n s1"
    using assms False by (simp add: process_def tasks_of_def s1_def Let_def)
  have w: "workers (q_process n s1) \<noteq> []"
    using q_process_busy [OF assms, of s1] q_process_order [of n s1] False
    by (auto simp: s1_def)
  have c: "completed (trace (q_process n s1)) = []"
    using q_process_completed [of n s1] by (simp add: s1_def)
  have st: "started (trace (q_process n s1)) @ q_tasks (q_process n s1) = tasks_of tasks"
    using q_process_started [of n s1] by (simp add: s1_def)
  have o: "workers (q_process n s1) @ q_tasks (q_process n s1) = tasks_of tasks"
    using q_process_order [of n s1] by (simp add: s1_def)
  from st o have eq: "workers (q_process n s1) = started (trace (q_process n s1))"
    by (metis append_eq_append_conv length_append add_right_cancel)
  have b: "length (workers (q_process n s1)) \<le> n"
    using q_process_bound [of s1 n] by (simp add: s1_def)
  show ?thesis
    unfolding p exec_inv_def
    using w c st eq b q_process_frame [of n s1]
    by (simp add: s1_def)
qed


lemma mset_splice1: "i < length xs \<Longrightarrow> add_mset (xs ! i) (mset (splice1 i xs)) = mset xs"
proof -
  assume "i < length xs"
  then have "xs = take i xs @ xs ! i # drop (Suc i) xs"
    by (simp add: id_take_nth_drop)
  then have "mset xs = mset (take i xs @ xs ! i # drop (Suc i) xs)" by simp
  then show ?thesis by (simp add: splice1_def)
qed

lemma length_splice1: "i < length xs \<Longrightarrow> length (splice1 i xs) = length xs - 1"
  by (simp add: splice1_def)

lemma q_process_idle:
  assumes "0 < n"
  shows "workers (q_process n s) = [] \<longleftrightarrow> workers s = [] \<and> q_tasks s = []"
  using q_process_busy [OF assms, of s] q_process_order [of n s]
  by (metis append_is_Nil_conv)

lemma q_process_account:
  assumes "mset c + mset (workers s) = mset (started (trace s))"
  shows "mset c + mset (workers (q_process n s)) = mset (started (trace (q_process n s)))"
proof -
  let ?s' = "q_process n s"
  have e1: "mset (started (trace ?s')) + mset (q_tasks ?s')
      = mset (started (trace s)) + mset (q_tasks s)"
    using arg_cong [OF q_process_started [of n s], of mset] by simp
  have e2: "mset (workers ?s') + mset (q_tasks ?s') = mset (workers s) + mset (q_tasks s)"
    using arg_cong [OF q_process_order [of n s], of mset] by simp
  have "mset c + mset (workers ?s') + mset (q_tasks ?s')
      = mset c + (mset (workers s) + mset (q_tasks s))"
    by (simp only: add.assoc e2)
  also have "\<dots> = mset (started (trace s)) + mset (q_tasks s)"
    by (simp only: add.assoc [symmetric] assms)
  also have "\<dots> = mset (started (trace ?s')) + mset (q_tasks ?s')"
    by (simp only: e1)
  finally show ?thesis by simp
qed

lemma q_error_fields:
  "workers (q_error e s) = workers s" "q_tasks (q_error e s) = q_tasks s"
  "trace (q_error e s) = trace s" "results (q_error e s) = results s"
  "qid (q_error e s) = qid s" "resolveFirst (q_error e s) = resolveFirst s"
  "queues (q_error e s) = onQueueComplete (qid s) (queues s)"
  "promise (q_error e s) = (case promise s of None \<Rightarrow> Some (Rejected e) | Some x \<Rightarrow> Some x)"
  by (simp_all add: q_error_def fail_def split: option.splits)

lemma q_drain_fields:
  "workers (q_drain s) = workers s" "q_tasks (q_drain s) = q_tasks s"
  "trace (q_drain s) = trace s" "results (q_drain s) = results s"
  "qid (q_drain s) = qid s" "resolveFirst (q_drain s) = resolveFirst s"
  "queues (q_drain s) = onQueueComplete (qid s) (queues s)"
  "promise (q_drain s) = (case promise s of None \<Rightarrow> Some (Resolved (delivered s)) | Some x \<Rightarrow> Some x)"
  by (simp_all add: q_drain_def ok_def delivered_def split: option.splits)

lemma exec_inv_complete:
  assumes inv: "exec_inv run n ts qs s" and n: "0 < n"
  shows "exec_inv run n ts qs (complete run n k s)"
proof (cases "workers s = []")
  case True
  then show ?thesis using inv by (simp add: complete_def)
next
  case False
  define i where "i = k mod length (workers s)"
  define t where "t = workers s ! i"
  define s1 where "s1 = s\<lparr>workers := splice1 i (workers s), trace := trace s @ [RunnerEnd t]\<rparr>"
  define s2 where "s2 = (case worker_result run t of
                    Inr v \<Rightarrow> s1\<lparr>results := results s1 @ [v]\<rparr>
                  | Inl e \<Rightarrow> q_error e (s1\<lparr>results := results s1 @ [Undefined]\<rparr>))"
  define s3 where "s3 = (if q_tasks s2 = [] \<and> workers s2 = [] then q_drain s2 else s2)"
  have c: "complete run n k s = q_process n s3"
    unfolding complete_def Let_def s3_def s2_def s1_def t_def i_def using False by simp
  have i: "i < length (workers s)"
    using False by (simp add: i_def)
  have ms: "add_mset t (mset (splice1 i (workers s))) = mset (workers s)"
    using mset_splice1 [OF i] by (simp add: t_def)
  have ls: "length (splice1 i (workers s)) = length (workers s) - 1"
    using length_splice1 [OF i] .
  from inv have I1: "workers s = [] \<longrightarrow> q_tasks s = []"
    and I2: "length (workers s) \<le> n"
    and I3: "started (trace s) @ q_tasks s = ts"
    and I4: "mset (completed (trace s)) + mset (workers s) = mset (started (trace s))"
    and I5: "results s = map (pushed run) (completed (trace s))"
    and I6: "promise s =
       (case first_failure run (completed (trace s)) of
          Some e \<Rightarrow> Some (Rejected e)
        | None \<Rightarrow> if workers s = [] then Some (Resolved (delivered s)) else None)"
    and I7: "qid s = new_queue qs"
    and I8: "queues s = (if promise s = None then qs @ [new_queue qs] else qs)"
    by (simp_all add: exec_inv_def)
  have s2_fields: "workers s2 = splice1 i (workers s)" "q_tasks s2 = q_tasks s"
    "trace s2 = trace s @ [RunnerEnd t]" "results s2 = results s @ [pushed run t]"
    "qid s2 = qid s" "resolveFirst s2 = resolveFirst s"
    by (simp_all add: s2_def s1_def q_error_fields pushed_def split: sum.splits)
  have s2_promise: "promise s2 =
       (case first_failure run (completed (trace s2)) of
          Some e \<Rightarrow> Some (Rejected e) | None \<Rightarrow> None)"
    using I6 False
    by (simp add: s2_def s1_def q_error_fields completed_append first_failure_append
        split: sum.splits option.splits)
  have s2_queues: "queues s2 = (if promise s2 = None then qs @ [new_queue qs] else qs)"
    using I8 I7 I6 False
    by (simp add: s2_def s1_def q_error_fields completed_append first_failure_append
        onQueueComplete_registered onQueueComplete_absent
        split: sum.splits option.splits)
  have s3_fields: "workers s3 = splice1 i (workers s)" "q_tasks s3 = q_tasks s"
    "trace s3 = trace s @ [RunnerEnd t]" "results s3 = results s @ [pushed run t]"
    "qid s3 = qid s" "resolveFirst s3 = resolveFirst s"
    by (simp_all add: s3_def s2_fields q_drain_fields)
  have d32: "delivered s3 = delivered s2"
    by (simp add: delivered_def s3_fields s2_fields)
  have s3_promise: "promise s3 =
       (case first_failure run (completed (trace s3)) of
          Some e \<Rightarrow> Some (Rejected e)
        | None \<Rightarrow> if workers s3 = [] \<and> q_tasks s3 = [] then Some (Resolved (delivered s3)) else None)"
    unfolding d32 s3_fields using s2_promise
    by (simp add: s3_def s2_fields q_drain_fields split: option.splits)
  have s3_queues: "queues s3 = (if promise s3 = None then qs @ [new_queue qs] else qs)"
    using s2_queues s2_promise I7
    by (simp add: s3_def s2_fields q_drain_fields
        onQueueComplete_registered onQueueComplete_absent split: option.splits)
  have acc3: "mset (completed (trace s3)) + mset (workers s3) = mset (started (trace s3))"
    using I4 ms [symmetric] by (simp add: s3_fields completed_append started_append)
  have st3: "started (trace s3) @ q_tasks s3 = ts"
    using I3 by (simp add: s3_fields started_append)
  have b3: "length (workers s3) \<le> n"
    using I2 ls by (simp add: s3_fields)
  have d: "delivered (q_process n s3) = delivered s3"
    by (simp add: delivered_def q_process_frame)
  have r3: "results s3 = map (pushed run) (completed (trace s3))"
    using I5 by (simp add: s3_fields completed_append)
  have q3: "qid s3 = new_queue qs"
    using I7 by (simp add: s3_fields)
  show ?thesis
    unfolding c exec_inv_def q_process_completed d
    using q_process_busy [OF n, of s3] q_process_bound [OF b3]
      q_process_started [of n s3] st3 q_process_account [OF acc3, of n]
      r3 s3_promise s3_queues q3 q_process_idle [OF n, of s3]
    by (auto simp: q_process_frame)
qed

lemma exec_inv_run:
  "exec_inv run n ts qs s \<Longrightarrow> 0 < n \<Longrightarrow> exec_inv run n ts qs (run_schedule run n sched s)"
  by (induction sched arbitrary: s) (auto intro: exec_inv_complete)


lemma complete_completed:
  "workers s \<noteq> [] \<Longrightarrow>
   completed (trace (complete run n k s)) =
     completed (trace s) @ [workers s ! (k mod length (workers s))]"
  by (simp add: complete_def Let_def q_process_completed q_drain_fields q_error_fields
      completed_append split: sum.splits)

lemma exec_inv_length:
  assumes "exec_inv run n ts qs s"
  shows "length (completed (trace s)) + length (workers s) + length (q_tasks s) = length ts"
proof -
  from assms have "started (trace s) @ q_tasks s = ts"
    and "mset (completed (trace s)) + mset (workers s) = mset (started (trace s))"
    by (simp_all add: exec_inv_def)
  then have "size (mset (completed (trace s)) + mset (workers s)) + length (q_tasks s) = length ts"
    by (metis length_append size_mset)
  then show ?thesis by simp
qed

lemma exec_inv_idle:
  assumes "exec_inv run n ts qs s" and "workers s = []"
  shows "mset (completed (trace s)) = mset ts" and "q_tasks s = []"
  using assms by (auto simp: exec_inv_def)

lemma run_schedule_progress:
  assumes "exec_inv run n ts qs s" and "0 < n"
  shows "length (completed (trace (run_schedule run n sched s))) =
           min (length ts) (length (completed (trace s)) + length sched)"
  using assms(1)
proof (induction sched arbitrary: s)
  case Nil
  then show ?case using exec_inv_length [OF Nil] by simp
next
  case (Cons k ks)
  note inv' = exec_inv_complete [OF Cons.prems assms(2), of k]
  show ?case
  proof (cases "workers s = []")
    case True
    then have "complete run n k s = s" by (simp add: complete_def)
    moreover have "length (completed (trace s)) = length ts"
      using exec_inv_length [OF Cons.prems] exec_inv_idle(2) [OF Cons.prems True] True by simp
    ultimately show ?thesis
      using Cons.IH [OF inv'] by simp
  next
    case False
    then have "length (completed (trace s)) < length ts"
      using exec_inv_length [OF Cons.prems] by (cases "workers s") auto
    then show ?thesis
      using Cons.IH [OF inv'] complete_completed [OF False, of run n k] by simp
  qed
qed

lemma run_schedule_drained:
  assumes "exec_inv run n ts qs s" and "0 < n"
    and "length ts \<le> length (completed (trace s)) + length sched"
  shows "workers (run_schedule run n sched s) = []"
proof -
  let ?s' = "run_schedule run n sched s"
  have "length (completed (trace ?s')) = length ts"
    using run_schedule_progress [OF assms(1,2), of sched] assms(3) by simp
  then show ?thesis
    using exec_inv_length [OF exec_inv_run [OF assms(1,2), of sched]] by simp
qed

lemma first_failure_None: "first_failure run xs = None \<longleftrightarrow> (\<forall>t\<in>set xs. \<exists>v. worker_result run t = Inr v)"
  by (induction xs) (auto split: sum.splits)

lemma first_failure_Some:
  "first_failure run xs = Some e \<Longrightarrow> \<exists>t\<in>set xs. worker_result run t = Inl e"
  by (induction xs) (auto split: sum.splits)


lemma q_process_sequential:
  "c @ workers s = started (trace s) \<Longrightarrow>
   c @ workers (q_process n s) = started (trace (q_process n s))"
  by (induction n s rule: q_process.induct)
     (subst (1 2) q_process.simps, simp split: list.splits add: started_append)

lemma complete_sequential:
  assumes "completed (trace s) @ workers s = started (trace s)" and "length (workers s) \<le> 1"
  shows "completed (trace (complete run n k s)) @ workers (complete run n k s)
       = started (trace (complete run n k s))"
proof (cases "workers s")
  case Nil
  then show ?thesis using assms by (simp add: complete_def)
next
  case (Cons t ws)
  with assms(2) have ws: "workers s = [t]" by simp
  show ?thesis
    unfolding complete_def Let_def
    using assms(1) ws
    by (auto simp: splice1_def q_drain_fields q_error_fields q_process_completed
        completed_append started_append split: sum.splits
        intro!: q_process_sequential)
qed

lemma run_schedule_sequential:
  assumes "exec_inv run 1 ts qs s" and "completed (trace s) @ workers s = started (trace s)"
  shows "completed (trace (run_schedule run 1 sched s)) @ workers (run_schedule run 1 sched s)
       = started (trace (run_schedule run 1 sched s))"
  using assms
proof (induction sched arbitrary: s)
  case Nil
  then show ?case by simp
next
  case (Cons k ks)
  have b: "length (workers s) \<le> 1"
    using Cons.prems(1) by (simp add: exec_inv_def)
  show ?case
    using Cons.IH [OF exec_inv_complete [OF Cons.prems(1)] complete_sequential [OF Cons.prems(2) b]]
    by simp
qed

lemma process_sequential_start:
  "0 < n \<Longrightarrow> completed (trace (process n tasks qs [])) @ workers (process n tasks qs [])
     = started (trace (process n tasks qs []))"
  using q_process_sequential [of "[]" _ n]
  by (auto simp: process_def Let_def q_drain_fields q_process_completed)

lemmas exec_eval = process_def complete_def q_process.simps q_drain_def q_error_def ok_def
  fail_def onQueueComplete_def splice1_def new_queue_def firstResult_def worker_result_def
  pushed_def delivered_def tasks_of_def Let_def taskA_def taskB_def taskC_def taskP_def ok_runner_def b_fails_def

section \<open>Facts about the chain\<close>

lemma chain_events_snoc:
  "chain_events run (ds @ [t]) =
     chain_events run ds @ (case chain_state run ds of None \<Rightarrow> step_events run t | Some _ \<Rightarrow> [])"
  by (induction ds) (auto split: option.splits)

lemma chain_state_snoc:
  "chain_state run (ds @ [t]) =
     (case chain_state run ds of None \<Rightarrow> step_rejects run t | Some e \<Rightarrow> Some e)"
  by (induction ds) (auto split: option.splits)

lemma process_single:
  "0 < n \<Longrightarrow> process n (Single t) qs tr =
     \<lparr>queues = qs @ [new_queue qs], trace = tr @ [RunnerStart t], qid = new_queue qs,
      resolveFirst = False, q_tasks = [], workers = [t], results = [], promise = None\<rparr>"
  by (simp add: process_def Let_def q_process.simps)

lemma complete_single:
  assumes "workers e = [t]" "q_tasks e = []" "promise e = None" "results e = []"
    "\<not> resolveFirst e"
  shows "promise (complete run n k e) = Some (step_outcome run t)"
    and "trace (complete run n k e) = trace e @ [RunnerEnd t]"
  using assms
  by (simp_all add: complete_def Let_def splice1_def q_process.simps q_drain_fields
      q_error_fields q_process_frame delivered_def step_outcome_def split: sum.splits)

lemma chain_at_new: "chain_at run [] [] new_simple_git"
  by (simp add: chain_at_def new_simple_git_def idle_executor_def in_progress_def)

lemma chain_at_append:
  "chain_at run ts d s \<Longrightarrow> chain_at run (ts @ [t]) d (processChain t s)"
  by (auto simp: chain_at_def processChain_def in_progress_def)

lemma chain_at_tick:
  assumes "chain_at run ts d s" and n: "0 < n"
  shows "\<exists>d'. chain_at run ts d' (tick n s)"
proof (cases "active s")
  case (Some t)
  then have "tick n s = s" by (simp add: tick_def)
  with assms show ?thesis by auto
next
  case None
  then have ip: "in_progress s = []" by (simp add: in_progress_def)
  show ?thesis
  proof (cases "chain_thens s")
    case Nil
    then have "tick n s = s" using None by (simp add: tick_def)
    with assms show ?thesis by auto
  next
    case (Cons t rest)
    show ?thesis
    proof (cases "chain_rejected s")
      case (Some e)
      then have "tick n s = s\<lparr>chain_thens := rest\<rparr>"
        using None Cons by (simp add: tick_def)
      moreover have "chain_at run ts (d @ [t]) (s\<lparr>chain_thens := rest\<rparr>)"
        using assms(1) Some Cons ip
        by (auto simp: chain_at_def in_progress_def chain_events_snoc chain_state_snoc)
      ultimately show ?thesis by auto
    next
      case rej: None
      then have p: "pending s = t # rest"
        using assms(1) Cons by (simp add: chain_at_def)
      have "tick n s = s\<lparr>chain_thens := rest, pending := rest,
          exec := process n (Single t) (queues (exec s)) (trace (exec s)), active := Some t\<rparr>"
        using None Cons rej p n
        by (simp add: tick_def continuation_def step_settled_def process_single)
      moreover have "chain_at run ts d (s\<lparr>chain_thens := rest, pending := rest,
          exec := process n (Single t) (queues (exec s)) (trace (exec s)), active := Some t\<rparr>)"
        using assms(1) Cons ip rej n
        by (auto simp: chain_at_def in_progress_def process_single)
      ultimately show ?thesis by auto
    qed
  qed
qed

lemma chain_at_runner_done:
  assumes "chain_at run ts d s"
  shows "\<exists>d'. chain_at run ts d' (runner_done run n s)"
proof (cases "active s")
  case None
  then have "runner_done run n s = s" by (simp add: runner_done_def)
  with assms show ?thesis by auto
next
  case (Some t)
  then have ip: "in_progress s = [t]" by (simp add: in_progress_def)
  with assms have e: "workers (exec s) = [t]" "q_tasks (exec s) = []" "promise (exec s) = None"
    "results (exec s) = []" "\<not> resolveFirst (exec s)" and rej: "chain_rejected s = None"
    by (simp_all add: chain_at_def)
  note c = complete_single [OF e, of run n 0]
  have "runner_done run n s = s\<lparr>exec := (complete run n 0 (exec s))
          \<lparr>trace := trace (exec s) @ [RunnerEnd t] @ fst (then_catch t (step_outcome run t))\<rparr>,
          chain_rejected := step_rejects run t, active := None\<rparr>"
    using Some c
    by (simp add: runner_done_def step_settled_def step_rejects_def split: prod.splits)
  moreover have "chain_at run ts (d @ [t]) (s\<lparr>exec := (complete run n 0 (exec s))
          \<lparr>trace := trace (exec s) @ [RunnerEnd t] @ fst (then_catch t (step_outcome run t))\<rparr>,
          chain_rejected := step_rejects run t, active := None\<rparr>)"
    using assms ip rej c(2)
    by (auto simp: chain_at_def in_progress_def chain_events_snoc chain_state_snoc
        step_events_def)
  ultimately show ?thesis by auto
qed

lemma chain_inv_run:
  assumes "chain_inv run ts s" and "0 < n"
  shows "chain_inv run (ts @ appended acts) (run_actions run n acts s)"
  using assms(1)
proof (induction acts arbitrary: ts s)
  case Nil
  then show ?case by simp
next
  case (Cons a acts)
  from Cons.prems obtain d where d: "chain_at run ts d s"
    by (auto simp: chain_inv_def)
  show ?case
  proof (cases a)
    case (Append t)
    have "chain_inv run (ts @ [t]) (processChain t s)"
      using chain_at_append [OF d] by (auto simp: chain_inv_def)
    from Cons.IH [OF this] show ?thesis using Append by simp
  next
    case Tick
    have "chain_inv run ts (tick n s)"
      using chain_at_tick [OF d assms(2)] by (simp add: chain_inv_def)
    from Cons.IH [OF this] show ?thesis using Tick by simp
  next
    case RunnerDone
    have "chain_inv run ts (runner_done run n s)"
      using chain_at_runner_done [OF d] by (simp add: chain_inv_def)
    from Cons.IH [OF this] show ?thesis using RunnerDone by simp
  qed
qed


lemma then_catch_handlers:
  "ev \<in> set (fst (then_catch t st)) \<Longrightarrow> \<exists>e v. ev = HandlerCall t e v"
  by (auto simp: then_catch_def on_then_def on_catch_def call_handler_def
      split: settlement.splits sum.splits option.splits prod.splits)

lemma disjoint_handlers:
  "(\<And>ev. ev \<in> set evs \<Longrightarrow> \<exists>e v. ev = HandlerCall t e v) \<Longrightarrow>
   runner_calls_disjoint False (evs @ es) = runner_calls_disjoint False es"
proof (induction evs)
  case Nil
  then show ?case by simp
next
  case (Cons ev evs)
  from Cons.prems [of ev] obtain e v where "ev = HandlerCall t e v" by auto
  with Cons show ?case by simp
qed

lemma disjoint_step:
  "runner_calls_disjoint False (step_events run t @ es) = runner_calls_disjoint False es"
  using disjoint_handlers [of "fst (then_catch t (step_outcome run t))" t es] then_catch_handlers
  by (simp add: step_events_def)

lemma disjoint_chain:
  "runner_calls_disjoint False (chain_events run ts @ es) = runner_calls_disjoint False es"
  by (induction ts) (auto simp: disjoint_step split: option.splits)

lemma run_actions_append:
  "run_actions run n (as @ bs) s = run_actions run n bs (run_actions run n as s)"
  by (induction as arbitrary: s) auto

lemma appended_append: "appended (as @ bs) = appended as @ appended bs"
  by (induction as rule: appended.induct) auto

lemma appended_turns: "appended (turns m) = []"
  by (induction m) (auto simp: turns_def)

lemma handler_returns_step:
  assumes "handler_returns run t"
  shows "step_events run t = own_outcome_events run t" and "step_rejects run t = None"
  using assms
  by (auto simp: handler_returns_def step_events_def step_rejects_def own_outcome_events_def
      step_outcome_def then_catch_def on_then_def on_catch_def call_handler_def
      split: option.splits sum.splits)

lemma chain_events_all:
  "\<forall>t\<in>set ts. step_rejects run t = None \<Longrightarrow>
   chain_events run ts = concat (map (step_events run) ts) \<and> chain_state run ts = None"
  by (induction ts) auto

lemma turn_progress:
  assumes at: "chain_at run ts d s" and n: "0 < n"
    and ok: "\<forall>t\<in>set ts. step_rejects run t = None"
  shows "\<exists>d'. chain_at run ts d' (runner_done run n (tick n s))
       \<and> in_progress (runner_done run n (tick n s)) = []
       \<and> length (chain_thens (runner_done run n (tick n s))) =
           length (in_progress s @ chain_thens s) - 1"
proof -
  have sub: "set d \<subseteq> set ts" using at by (auto simp: chain_at_def)
  then have rej: "chain_rejected s = None"
    using at ok chain_events_all [of d run] by (auto simp: chain_at_def)
  show ?thesis
  proof (cases "active s")
    case (Some t)
    then have tk: "tick n s = s" by (simp add: tick_def)
    have ip: "in_progress s = [t]" using Some by (simp add: in_progress_def)
    with at have e: "workers (exec s) = [t]" "q_tasks (exec s) = []" "promise (exec s) = None"
      "results (exec s) = []" "\<not> resolveFirst (exec s)"
      by (simp_all add: chain_at_def)
    note c = complete_single [OF e, of run n 0]
    have rd: "runner_done run n s = s\<lparr>exec := (complete run n 0 (exec s))
          \<lparr>trace := trace (exec s) @ [RunnerEnd t] @ fst (then_catch t (step_outcome run t))\<rparr>,
          chain_rejected := step_rejects run t, active := None\<rparr>"
      using Some c
      by (simp add: runner_done_def step_settled_def step_rejects_def split: prod.splits)
    have "chain_at run ts (d @ [t]) (runner_done run n s)"
      unfolding rd using at ip rej c(2)
      by (auto simp: chain_at_def in_progress_def chain_events_snoc chain_state_snoc
          step_events_def)
    then show ?thesis
      unfolding tk using ip by (auto simp: rd in_progress_def)
  next
    case None
    then have ip: "in_progress s = []" by (simp add: in_progress_def)
    show ?thesis
    proof (cases "chain_thens s")
      case Nil
      then have "runner_done run n (tick n s) = s"
        using None by (simp add: tick_def runner_done_def)
      with at ip Nil show ?thesis by auto
    next
      case (Cons t rest)
      then have p: "pending s = t # rest"
        using at rej by (simp add: chain_at_def)
      define s1 where "s1 = s\<lparr>chain_thens := rest, pending := rest,
          exec := process n (Single t) (queues (exec s)) (trace (exec s)), active := Some t\<rparr>"
      have tk: "tick n s = s1"
        using None Cons rej p n
        by (simp add: s1_def tick_def continuation_def step_settled_def process_single)
      have e: "workers (exec s1) = [t]" "q_tasks (exec s1) = []" "promise (exec s1) = None"
        "results (exec s1) = []" "\<not> resolveFirst (exec s1)"
        using n by (simp_all add: s1_def process_single)
      note c = complete_single [OF e, of run n 0]
      have rd: "runner_done run n s1 = s1\<lparr>exec := (complete run n 0 (exec s1))
          \<lparr>trace := trace (exec s1) @ [RunnerEnd t] @ fst (then_catch t (step_outcome run t))\<rparr>,
          chain_rejected := step_rejects run t, active := None\<rparr>"
        using c
        by (simp add: s1_def runner_done_def step_settled_def step_rejects_def split: prod.splits)
      have "chain_at run ts (d @ [t]) (runner_done run n s1)"
        unfolding rd using at ip rej c(2) Cons n
        by (auto simp: s1_def chain_at_def in_progress_def chain_events_snoc chain_state_snoc
            step_events_def process_single)
      moreover have "in_progress (runner_done run n s1) = []"
        by (simp add: rd in_progress_def)
      moreover have "chain_thens (runner_done run n s1) = rest"
        unfolding rd by (simp add: s1_def)
      ultimately show ?thesis
        unfolding tk using ip Cons by auto
    qed
  qed
qed

lemma turns_drain:
  assumes n: "0 < n" and ok: "\<forall>t\<in>set ts. step_rejects run t = None"
  shows "chain_at run ts d s \<Longrightarrow> length (in_progress s @ chain_thens s) \<le> m \<Longrightarrow>
         chain_at run ts ts (run_actions run n (turns m) s)
       \<and> in_progress (run_actions run n (turns m) s) = []
       \<and> chain_thens (run_actions run n (turns m) s) = []"
proof (induction m arbitrary: d s)
  case 0
  then show ?case by (auto simp: turns_def chain_at_def)
next
  case (Suc m)
  from turn_progress [OF Suc.prems(1) n ok]
  obtain d' where d': "chain_at run ts d' (runner_done run n (tick n s))"
    "in_progress (runner_done run n (tick n s)) = []"
    "length (chain_thens (runner_done run n (tick n s))) = length (in_progress s @ chain_thens s) - 1"
    by blast
  have "length (in_progress (runner_done run n (tick n s))
          @ chain_thens (runner_done run n (tick n s))) \<le> m"
    using d'(2,3) Suc.prems(2) by simp
  from Suc.IH [OF d'(1) this] show ?case
    by (simp add: turns_def)
qed

lemma turns_settle_all:
  assumes n: "0 < n"
    and returns: "\<forall>t\<in>set (appended acts). handler_returns run t"
    and m: "length (appended acts) \<le> m"
  shows "trace (exec (run_actions run n (acts @ turns m) new_simple_git)) =
           concat (map (own_outcome_events run) (appended acts))
       \<and> active (run_actions run n (acts @ turns m) new_simple_git) = None
       \<and> chain_thens (run_actions run n (acts @ turns m) new_simple_git) = []
       \<and> pending (run_actions run n (acts @ turns m) new_simple_git) = []
       \<and> chain_rejected (run_actions run n (acts @ turns m) new_simple_git) = None"
proof -
  let ?ts = "appended acts"
  let ?s = "run_actions run n acts new_simple_git"
  let ?s' = "run_actions run n (turns m) ?s"
  have ok: "\<forall>t\<in>set ?ts. step_rejects run t = None"
    using returns handler_returns_step(2) by blast
  have "chain_inv run [] new_simple_git"
    using chain_at_new by (auto simp: chain_inv_def)
  from chain_inv_run [OF this n, of acts]
  obtain d where d: "chain_at run ?ts d ?s"
    by (auto simp: chain_inv_def)
  then have "length (in_progress ?s @ chain_thens ?s) \<le> m"
    using m by (auto simp: chain_at_def)
  from turns_drain [OF n ok d this]
  have at: "chain_at run ?ts ?ts ?s'" and ip: "in_progress ?s' = []" and th: "chain_thens ?s' = []"
    by simp_all
  have ev: "chain_events run ?ts = concat (map (own_outcome_events run) ?ts)"
    using chain_events_all [OF ok] returns handler_returns_step(1)
    by (metis (mono_tags, lifting) map_eq_conv)
  have "active ?s' = None"
    using ip by (simp add: in_progress_def split: option.splits)
  moreover have "chain_rejected ?s' = None"
    using at chain_events_all [OF ok] by (simp add: chain_at_def)
  moreover have "pending ?s' = []"
    using at th \<open>chain_rejected ?s' = None\<close> by (simp add: chain_at_def)
  moreover have "trace (exec ?s') = concat (map (own_outcome_events run) ?ts)"
    using at ip ev by (simp add: chain_at_def)
  ultimately show ?thesis
    using th by (simp add: run_actions_append)
qed


lemmas chain_eval = new_simple_git_def idle_executor_def processChain_def tick_def
  runner_done_def continuation_def step_settled_def then_catch_def on_then_def on_catch_def
  call_handler_def type_error_def in_progress_def chained_def rethrows_def throws_once_def
  always_throws_def step_events_def step_rejects_def step_outcome_def


section \<open>Properties of the Task Queue Executor\<close>

text \<open>
  C1, as amended. A Task Group of M tasks is submitted with concurrency \<open>n \<ge> 1\<close>, every
  worker succeeds (the Runner call, and the parser when the task has one), and the schedule
  lets all M calls settle. Then, for every schedule, \<^verbatim>\<open>results\<close> holds the M per-task
  results (parsed output when the task has a parser, raw output otherwise) in the order in
  which the Runner calls completed; that order is a rearrangement of the order of
  submission, and it is the order of submission when \<open>n = 1\<close>. The promise is resolved
  from that accumulator.
\<close>

theorem results_in_completion_order:
  assumes n: "0 < n"
    and succeed: "\<forall>t\<in>set (tasks_of tasks). \<exists>v. worker_result run t = Inr v"
    and all_done: "length (tasks_of tasks) \<le> length sched"
  shows "results (run_schedule run n sched (process n tasks qs [])) =
           map (pushed run) (completed (trace (run_schedule run n sched (process n tasks qs []))))
       \<and> mset (completed (trace (run_schedule run n sched (process n tasks qs [])))) =
           mset (tasks_of tasks)
       \<and> promise (run_schedule run n sched (process n tasks qs [])) =
           Some (Resolved (delivered (run_schedule run n sched (process n tasks qs []))))
       \<and> (n = 1 \<longrightarrow>
           completed (trace (run_schedule run n sched (process n tasks qs []))) = tasks_of tasks)"
proof -
  let ?s = "run_schedule run n sched (process n tasks qs [])"
  note inv0 = exec_inv_process [OF n, of run tasks qs]
  note inv = exec_inv_run [OF inv0 n, of sched]
  have idle: "workers ?s = []"
    using run_schedule_drained [OF inv0 n, of sched] all_done by simp
  note perm = exec_inv_idle [OF inv idle]
  have ff: "first_failure run (completed (trace ?s)) = None"
    using succeed set_mset_mset perm(1) by (metis first_failure_None)
  have r: "results ?s = map (pushed run) (completed (trace ?s))"
    using inv by (simp add: exec_inv_def)
  have p: "promise ?s = Some (Resolved (delivered ?s))"
    using inv ff idle by (simp add: exec_inv_def)
  have seq: "completed (trace ?s) = tasks_of tasks" if "n = 1"
  proof -
    have "completed (trace ?s) @ workers ?s = started (trace ?s)"
      using run_schedule_sequential [OF inv0 [unfolded that] process_sequential_start [of 1]] that
      by simp
    moreover have "started (trace ?s) @ q_tasks ?s = tasks_of tasks"
      using inv by (simp add: exec_inv_def)
    ultimately show ?thesis using idle perm(2) by simp
  qed
  from r perm(1) p seq show ?thesis by blast
qed

text \<open>
  The theorem at concurrency 1, task A without a parser and task P with one, both
  succeeding: the accumulator holds the raw output of A and the parsed output of P, in the
  order of submission.
\<close>

theorem results_in_completion_order_witness:
  "results (run_schedule ok_runner 1 [0, 0] (process 1 (Group [taskA, taskP]) [] [])) =
     [Str ''a'', Obj [(''raw'', Str ''p'')]]
   \<and> completed (trace (run_schedule ok_runner 1 [0, 0] (process 1 (Group [taskA, taskP]) [] [])))
     = [taskA, taskP]"
  using results_in_completion_order [of 1 "Group [taskA, taskP]" ok_runner "[0, 0]" "[]"]
  by (simp add: exec_eval)

text \<open>
  C1 as stated fails: at concurrency 2 with tasks A and B, both succeeding, where the call
  for B settles first, \<^verbatim>\<open>results\<close> is in the order of completion, and the value the
  promise resolves with (the first entry of \<^verbatim>\<open>results\<close>) is not the array of results in
  the order of submission.
\<close>

theorem submission_order_counterexample:
  "results (run_schedule ok_runner 2 [1, 0] (process 2 (Group [taskA, taskB]) [] [])) =
     [Str ''b'', Str ''a'']
   \<and> promise (run_schedule ok_runner 2 [1, 0] (process 2 (Group [taskA, taskB]) [] [])) =
     Some (Resolved (Str ''b''))
   \<and> promise (run_schedule ok_runner 2 [1, 0] (process 2 (Group [taskA, taskB]) [] [])) \<noteq>
     Some (Resolved (Arr [Str ''a'', Str ''b'']))"
  by (simp add: exec_eval)

text \<open>
  C2 at two concrete submissions. \<^verbatim>\<open>resolveFirst\<close> is \<^verbatim>\<open>varType(tasks) === arrType\<close>, so
  it is set for an array and not for a single Task, although the log line next to it reads
  \<^verbatim>\<open>resolveFirst ? 'single task' : 'task group'\<close>: a single Task A resolves with the
  one-element array of its result, and the group of A and B resolves with the first result
  alone.
\<close>

theorem single_task_resolves_with_array:
  "promise (run_schedule ok_runner 1 [0] (process 1 (Single taskA) [] [])) =
     Some (Resolved (Arr [Str ''a'']))
   \<and> promise (run_schedule ok_runner 1 [0, 0] (process 1 (Group [taskA, taskB]) [] [])) =
     Some (Resolved (Str ''a''))"
  by (simp add: exec_eval)

text \<open>
  C3. A Task Group is submitted with concurrency \<open>n \<ge> 1\<close> and the Runner call of one of
  its tasks, \<open>t\<close>, fails with \<open>e\<close>. Then at every moment of every schedule the promise is
  never resolved (no array of results is delivered); it is pending only while fewer calls
  have settled than there are tasks; and once rejected it holds the error of a task of the
  group whose worker failed, namely the first one to fail in the order of completion. When
  \<open>t\<close> is the only task that fails, that error is \<open>e\<close>.
\<close>

theorem group_failure_rejects:
  assumes n: "0 < n"
    and t: "t \<in> set (tasks_of tasks)"
    and fails: "run (command t) (options t) = Inl e"
  shows "case promise (run_schedule run n sched (process n tasks qs [])) of
           None \<Rightarrow> length sched < length (tasks_of tasks)
         | Some (Resolved v) \<Rightarrow> False
         | Some (Rejected e') \<Rightarrow>
             first_failure run
               (completed (trace (run_schedule run n sched (process n tasks qs [])))) = Some e'
             \<and> (\<exists>t'\<in>set (tasks_of tasks). worker_result run t' = Inl e')
             \<and> ((\<forall>u\<in>set (tasks_of tasks). u \<noteq> t \<longrightarrow> (\<exists>v. worker_result run u = Inr v))
                  \<longrightarrow> e' = e)"
proof -
  let ?s = "run_schedule run n sched (process n tasks qs [])"
  note inv0 = exec_inv_process [OF n, of run tasks qs]
  note inv = exec_inv_run [OF inv0 n, of sched]
  have wt: "worker_result run t = Inl e"
    using fails by (simp add: worker_result_def)
  from inv have P: "promise ?s =
       (case first_failure run (completed (trace ?s)) of
          Some e \<Rightarrow> Some (Rejected e)
        | None \<Rightarrow> if workers ?s = [] then Some (Resolved (delivered ?s)) else None)"
    by (simp add: exec_inv_def)
  have sub: "set (completed (trace ?s)) \<subseteq> set (tasks_of tasks)"
  proof -
    from inv have "started (trace ?s) @ q_tasks ?s = tasks_of tasks"
      and "mset (completed (trace ?s)) + mset (workers ?s) = mset (started (trace ?s))"
      by (simp_all add: exec_inv_def)
    then have "set (completed (trace ?s)) \<subseteq> set (started (trace ?s))"
      and "set (started (trace ?s)) \<subseteq> set (tasks_of tasks)"
      by (metis mset_subset_eqD mset_subset_eq_add_left set_mset_mset subsetI,
          metis set_append Un_upper1)
    then show ?thesis by blast
  qed
  show ?thesis
  proof (cases "first_failure run (completed (trace ?s))")
    case None
    have "workers ?s \<noteq> []"
    proof
      assume "workers ?s = []"
      then have "mset (completed (trace ?s)) = mset (tasks_of tasks)"
        using exec_inv_idle(1) [OF inv] by simp
      then have "t \<in> set (completed (trace ?s))"
        using t by (metis set_mset_mset)
      with None wt show False
        by (auto simp: first_failure_None)
    qed
    moreover from this have "length sched < length (tasks_of tasks)"
      using run_schedule_drained [OF inv0 n, of sched] by force
    ultimately show ?thesis using P None by simp
  next
    case (Some e')
    then obtain t' where t': "t' \<in> set (completed (trace ?s))" "worker_result run t' = Inl e'"
      using first_failure_Some by blast
    have "e' = e" if "\<forall>u\<in>set (tasks_of tasks). u \<noteq> t \<longrightarrow> (\<exists>v. worker_result run u = Inr v)"
      using that t' sub wt by force
    with t' sub show ?thesis using P Some by auto
  qed
qed

text \<open>
  The scenario of the specification: concurrency 2, tasks A, B and C of which B fails; with
  B settling first, then A, then C, the promise is rejected with the error of B.
\<close>

theorem group_failure_rejects_witness:
  "promise (run_schedule b_fails 2 [1, 0, 0]
      (process 2 (Group [taskA, taskB, taskC]) [] [])) = Some (Rejected (Error ''boom''))"
  using group_failure_rejects [of 2 taskB "Group [taskA, taskB, taskC]" b_fails "Error ''boom''"
      "[1, 0, 0]" "[]"]
  by (simp add: exec_eval)

text \<open>
  C7. Submitting an empty Task Group with concurrency \<open>n \<ge> 1\<close> resolves the promise with
  \<^verbatim>\<open>undefined\<close> without a call of the Runner: the trace is unchanged, no worker runs and
  no task waits, and no later event changes the state.
\<close>

theorem empty_group_resolves:
  assumes "0 < n"
  shows "promise (process n (Group []) qs tr) = Some (Resolved Undefined)
       \<and> trace (process n (Group []) qs tr) = tr
       \<and> workers (process n (Group []) qs tr) = []
       \<and> q_tasks (process n (Group []) qs tr) = []
       \<and> run_schedule run n sched (process n (Group []) qs tr) = process n (Group []) qs tr"
proof -
  have w: "workers (process n (Group []) qs tr) = []"
    using assms by (simp add: process_def Let_def q_drain_fields)
  have "run_schedule run n sched s = s" if "workers s = []" for s
    using that by (induction sched) (simp_all add: complete_def)
  from this [OF w] w show ?thesis
    using assms by (simp add: process_def Let_def q_drain_fields delivered_def firstResult_def)
qed

theorem empty_group_resolves_witness:
  "promise (process 2 (Group []) [7] []) = Some (Resolved Undefined)
   \<and> trace (process 2 (Group []) [7] []) = []"
  using empty_group_resolves [of 2 "[7]" "[]" ok_runner "[]"] by simp

text \<open>
  C8. A submission with concurrency \<open>n \<ge> 1\<close> registers one queue, a new one, in
  \<^verbatim>\<open>this.queues\<close>. At every moment of every schedule the registry is its contents before
  the submission followed by that queue while the promise is pending, and exactly its
  contents before the submission once the promise has settled; and the promise has settled
  once as many Runner calls have settled as there are tasks.
\<close>

theorem queue_deregistered_on_settlement:
  assumes "0 < n"
  shows "qid (run_schedule run n sched (process n tasks qs [])) = new_queue qs
       \<and> new_queue qs \<notin> set qs
       \<and> queues (run_schedule run n sched (process n tasks qs [])) =
           (if promise (run_schedule run n sched (process n tasks qs [])) = None
            then qs @ [new_queue qs] else qs)
       \<and> (length (tasks_of tasks) \<le> length sched \<longrightarrow>
           promise (run_schedule run n sched (process n tasks qs [])) \<noteq> None)"
proof -
  let ?s = "run_schedule run n sched (process n tasks qs [])"
  note inv0 = exec_inv_process [OF assms, of run tasks qs]
  note inv = exec_inv_run [OF inv0 assms, of sched]
  have "promise ?s \<noteq> None" if "length (tasks_of tasks) \<le> length sched"
  proof -
    have "workers ?s = []"
      using run_schedule_drained [OF inv0 assms, of sched] that by simp
    then show ?thesis using inv by (auto simp: exec_inv_def split: option.splits)
  qed
  then show ?thesis
    using inv new_queue_fresh [of qs] by (simp add: exec_inv_def)
qed

text \<open>
  With queues 3 and 5 registered before: the group of A and B is registered as queue 6, and
  the registry is back to 3 and 5 both when B fails first and when both succeed.
\<close>

theorem queue_deregistered_on_settlement_witness:
  "queues (run_schedule ok_runner 2 [] (process 2 (Group [taskA, taskB]) [3, 5] [])) = [3, 5, 6]
   \<and> queues (run_schedule b_fails 2 [1] (process 2 (Group [taskA, taskB]) [3, 5] [])) = [3, 5]
   \<and> queues (run_schedule ok_runner 2 [1, 0] (process 2 (Group [taskA, taskB]) [3, 5] [])) = [3, 5]"
  using queue_deregistered_on_settlement [of 2 ok_runner "[]" "Group [taskA, taskB]" "[3, 5]"]
    queue_deregistered_on_settlement [of 2 b_fails "[1]" "Group [taskA, taskB]" "[3, 5]"]
    queue_deregistered_on_settlement [of 2 ok_runner "[1, 0]" "Group [taskA, taskB]" "[3, 5]"]
  by (simp add: exec_eval)

section \<open>Properties of the Chain Sequencer\<close>

text \<open>
  C4. Chained Tasks are handed to \<^verbatim>\<open>processChain\<close> in some order, interleaved in any way
  with promise jobs and with the settling of Runner calls, at any concurrency \<open>n \<ge> 1\<close>.
  Then at every moment no Runner call begins while another is in flight, and the trace is
  that of an initial part of those tasks run one after the other in the order in which they
  were appended, each from the start of its Runner call to the end of its handler calls,
  followed at most by the start of the Runner call of the next task: every handler call of a
  step comes before the Runner call of the step after it.
\<close>

theorem chained_steps_in_sequence:
  assumes "0 < n"
  shows "runner_calls_disjoint False (trace (exec (run_actions run n acts new_simple_git)))
       \<and> (\<exists>done. appended acts =
              done @ in_progress (run_actions run n acts new_simple_git)
                   @ chain_thens (run_actions run n acts new_simple_git)
            \<and> trace (exec (run_actions run n acts new_simple_git)) =
              chain_events run done
                @ map RunnerStart (in_progress (run_actions run n acts new_simple_git)))"
proof -
  let ?s = "run_actions run n acts new_simple_git"
  have "chain_inv run [] new_simple_git"
    using chain_at_new by (auto simp: chain_inv_def)
  from chain_inv_run [OF this assms, of acts]
  obtain d where d: "chain_at run (appended acts) d ?s"
    by (auto simp: chain_inv_def)
  then have tr: "trace (exec ?s) = chain_events run d @ map RunnerStart (in_progress ?s)"
    and ts: "appended acts = d @ in_progress ?s @ chain_thens ?s"
    by (simp_all add: chain_at_def)
  have "runner_calls_disjoint False (trace (exec ?s))"
    unfolding tr disjoint_chain by (simp add: in_progress_def split: option.splits)
  with tr ts show ?thesis by blast
qed

text \<open>
  Tasks T1, T2 and T3 at concurrency 3, the third appended while the first runs: the handler
  of T1 is called before the Runner call of T2 begins, and that of T2 before the call of T3.
\<close>

theorem chained_steps_in_sequence_witness:
  "trace (exec (run_actions ok_runner 3
      [Append (chained ''t1''), Append (chained ''t2''), Tick, Append (chained ''t3''),
       RunnerDone, Tick, Tick, RunnerDone, Tick] new_simple_git)) =
     [RunnerStart (chained ''t1''), RunnerEnd (chained ''t1''),
      HandlerCall (chained ''t1'') None (Str ''t1''),
      RunnerStart (chained ''t2''), RunnerEnd (chained ''t2''),
      HandlerCall (chained ''t2'') None (Str ''t2''),
      RunnerStart (chained ''t3'')]
   \<and> runner_calls_disjoint False (trace (exec (run_actions ok_runner 3
      [Append (chained ''t1''), Append (chained ''t2''), Tick, Append (chained ''t3''),
       RunnerDone, Tick, Tick, RunnerDone, Tick] new_simple_git)))"
  using chained_steps_in_sequence [of 3 ok_runner
      "[Append (chained ''t1''), Append (chained ''t2''), Tick, Append (chained ''t3''),
       RunnerDone, Tick, Tick, RunnerDone, Tick]"]
  by (simp add: chain_eval exec_eval)

text \<open>
  C5, as amended. Chained Tasks are appended, in any interleaving with the running of the
  chain, and every handler returns normally when called with the outcome of its own step.
  Then, whichever steps fail, once the chain has been given as many rounds as tasks were
  appended, every task has been submitted and run, in order, and the handler of each has
  been called exactly once, with the outcome of that step: \<^verbatim>\<open>handler(null, result)\<close> when
  it succeeded and \<^verbatim>\<open>handler(err)\<close> with its own error when it failed. Nothing is left
  pending and the chain is fulfilled.
\<close>

theorem every_chained_step_runs:
  assumes n: "0 < n"
    and returns: "\<forall>t\<in>set (appended acts). handler_returns run t"
    and m: "length (appended acts) \<le> m"
  shows "trace (exec (run_actions run n (acts @ turns m) new_simple_git)) =
           concat (map (own_outcome_events run) (appended acts))
       \<and> active (run_actions run n (acts @ turns m) new_simple_git) = None
       \<and> chain_thens (run_actions run n (acts @ turns m) new_simple_git) = []
       \<and> pending (run_actions run n (acts @ turns m) new_simple_git) = []
       \<and> chain_rejected (run_actions run n (acts @ turns m) new_simple_git) = None"
  using assms by (rule turns_settle_all)

text \<open>
  Steps a, b and c of which b fails: c is still run, and each handler receives the outcome
  of its own step.
\<close>

theorem every_chained_step_runs_witness:
  "trace (exec (run_actions b_fails 1
      ([Append (chained ''a''), Append (chained ''b''), Append (chained ''c'')] @ turns 3)
      new_simple_git)) =
     [RunnerStart (chained ''a''), RunnerEnd (chained ''a''),
      HandlerCall (chained ''a'') None (Str ''a''),
      RunnerStart (chained ''b''), RunnerEnd (chained ''b''),
      HandlerCall (chained ''b'') (Some (Error ''boom'')) Undefined,
      RunnerStart (chained ''c''), RunnerEnd (chained ''c''),
      HandlerCall (chained ''c'') None (Str ''c'')]"
  using every_chained_step_runs [of 1
      "[Append (chained ''a''), Append (chained ''b''), Append (chained ''c'')]" b_fails 3]
  by (simp add: handler_returns_def own_outcome_events_def chained_def worker_result_def
      b_fails_def)

text \<open>
  C5 as stated fails: step b fails and its handler throws the error it is given. The promise
  of that step is rejected, so the continuation of the next step k is skipped: k is never
  submitted, no step is in progress and no continuation is left.
\<close>

theorem failing_step_breaks_chain_counterexample:
  "trace (exec (run_actions b_fails 1
      [Append (rethrows ''b''), Append (chained ''k''), Tick, RunnerDone, Tick, RunnerDone]
      new_simple_git)) =
     [RunnerStart (rethrows ''b''), RunnerEnd (rethrows ''b''),
      HandlerCall (rethrows ''b'') (Some (Error ''boom'')) Undefined]
   \<and> chain_thens (run_actions b_fails 1
      [Append (rethrows ''b''), Append (chained ''k''), Tick, RunnerDone, Tick, RunnerDone]
      new_simple_git) = []
   \<and> active (run_actions b_fails 1
      [Append (rethrows ''b''), Append (chained ''k''), Tick, RunnerDone, Tick, RunnerDone]
      new_simple_git) = None"
  by (simp add: chain_eval exec_eval)




section \<open>Properties of the Dispatcher\<close>

text \<open>
  C6. Each of the public operations \<^verbatim>\<open>clone\<close>, \<^verbatim>\<open>mirror\<close>, \<^verbatim>\<open>status\<close>, \<^verbatim>\<open>stashList\<close> and
  \<^verbatim>\<open>stash\<close> routes the Task it builds as the specification says: a Task with a handler is
  passed to \<^verbatim>\<open>processChain\<close> and the instance is returned, a Task without one is passed to
  \<^verbatim>\<open>process\<close> and its promise is returned. Nothing but the handler of the Task decides.
\<close>

theorem operations_route_by_handler:
  "clone c n args s =
     spec_route n (clone_task c (trailingArrayArgument c args @ leading_strings args)
                 (trailingOptionsArgument c args) (trailingFunctionArgument c args)) s
   \<and> mirror c n repoPath localPath args s =
     spec_route n (clone_task c
                 (trailingArrayArgument c
                    (AString repoPath # AString localPath # AArray [''--mirror''] # args)
                  @ [repoPath, localPath])
                 (trailingOptionsArgument c
                    (AString repoPath # AString localPath # AArray [''--mirror''] # args))
                 (trailingFunctionArgument c
                    (AString repoPath # AString localPath # AArray [''--mirror''] # args))) s
   \<and> status c n args s = spec_route n (status_task c (trailingFunctionArgument c args)) s
   \<and> stashList c n args s =
     spec_route n (stashList_task c (trailingArrayArgument c args) (trailingOptionsArgument c args)
                 (trailingFunctionArgument c args)) s
   \<and> stash c n args s =
     spec_route n (stash_task c (trailingArrayArgument c args) (trailingOptionsArgument c args)
                 (trailingFunctionArgument c args)) s"
  by (simp add: clone_def mirror_def status_def stashList_def stash_def spec_route_def
      isAsyncHandler_def Let_def split: option.splits)

text \<open>\<^verbatim>\<open>status()\<close> returns a promise, \<^verbatim>\<open>status(callback)\<close> returns the instance.\<close>

theorem operations_route_by_handler_witness:
  "status demo 1 [] new_simple_git =
     Future (process 1 (Single \<lparr>command = [''status''], options = [], parser = None,
                handler = None\<rparr>) [] [])
   \<and> status demo 1 [AFunction (\<lambda>err data. None)] new_simple_git =
     This (processChain \<lparr>command = [''status''], options = [], parser = None,
                handler = Some (\<lambda>err data. None)\<rparr> new_simple_git)"
  using operations_route_by_handler [of demo 1 "[]" new_simple_git]
    operations_route_by_handler [of demo 1 "[AFunction (\<lambda>err data. None)]" new_simple_git]
  by (simp add: spec_route_def demo_def new_simple_git_def idle_executor_def)

text \<open>
  C9. \<^verbatim>\<open>mirror(repoPath, localPath, ...args)\<close> is \<^verbatim>\<open>clone(repoPath, localPath,
  ['--mirror'], ...args)\<close>: the same value is returned and the same state is left, for all
  arguments. In that call of \<^verbatim>\<open>clone\<close> the loop over the leading strings adds the two
  paths to the command and stops at the injected array.
\<close>

theorem mirror_is_clone_with_flag:
  "mirror c n repoPath localPath args s =
     clone c n (AString repoPath # AString localPath # AArray [''--mirror''] # args) s
   \<and> leading_strings (AString repoPath # AString localPath # AArray [''--mirror''] # args) =
     [repoPath, localPath]"
  by (simp add: mirror_def)

theorem mirror_is_clone_with_flag_witness:
  "mirror demo 1 ''repo'' ''dir'' [] new_simple_git =
     Future (process 1 (Single \<lparr>command = [''clone'', ''--mirror'', ''repo'', ''dir''],
                options = [], parser = None, handler = None\<rparr>) [] [])"
  using mirror_is_clone_with_flag [of demo 1 "''repo''" "''dir''" "[]" new_simple_git]
  by (simp add: clone_def demo_def isAsyncHandler_def new_simple_git_def idle_executor_def)

end
